theory Spec2Isabelle
  imports Main "HOL-Library.Word"
begin

chapter \<open>The UCNet scripts of FaderBridge\<close>

text \<open>
  A shallow embedding of the UCNet protocol code in the Python scripts of the
  repository: building and scanning frames, extracting float and string parameters,
  adopting the session token, the ucdaemon client and the path pattern applied to
  decompressed blocks.  Functions keep the names they have in the scripts.  A function
  that can raise returns a sum with the error on the left.  Output with \<open>print\<close>,
  waiting with \<open>time.sleep\<close> and failures of the socket itself are left out: a socket
  is the list of packets written to it.
\<close>

section \<open>Python primitives used by the UCNet scripts\<close>

text \<open>
  Python \<open>bytes\<close> are lists of 8-bit values; a Python \<open>str\<close> is a list of Unicode
  code points.  A single-precision value travels on the wire as its 4-byte IEEE-754
  pattern; it is modelled by that 32-bit pattern, so that packing and unpacking are
  exact and the rounding of a Python float to single precision is not part of the model.
\<close>

type_synonym byte = "8 word"

type_synonym bytes = "byte list"

type_synonym str = "nat list"

type_synonym float32 = "32 word"

datatype error = StructError | UnicodeEncodeError

text \<open>\<open>xs[a:b]\<close> for non-negative \<open>a\<close>, \<open>b\<close>: truncates silently at the end.\<close>

definition slice :: "'a list \<Rightarrow> nat \<Rightarrow> nat \<Rightarrow> 'a list" where
  "slice xs a b = take (b - a) (drop a xs)"

text \<open>\<open>xs[-n:]\<close>: the last \<open>n\<close> elements, or all of \<open>xs\<close> when it is shorter.\<close>

definition last_n :: "nat \<Rightarrow> 'a list \<Rightarrow> 'a list" where
  "last_n n xs = drop (length xs - n) xs"

text \<open>\<open>data.find(sub, start)\<close>: lowest index at or after \<open>start\<close>; \<open>None\<close> for \<open>-1\<close>.\<close>

definition find_bytes :: "bytes \<Rightarrow> bytes \<Rightarrow> nat \<Rightarrow> nat option" where
  "find_bytes data sub start =
     List.find (\<lambda>i. take (length sub) (drop i data) = sub) [start ..< Suc (length data)]"

text \<open>\<open>struct.pack('<H', n)\<close> raises \<open>struct.error\<close> outside \<open>0..65535\<close>.\<close>

definition pack_H :: "nat \<Rightarrow> error + bytes" where
  "pack_H n = (if n \<le> 65535 then Inr [of_nat (n mod 256), of_nat (n div 256)]
               else Inl StructError)"

text \<open>\<open>struct.unpack('<H', bs)[0]\<close> raises unless \<open>bs\<close> has exactly 2 bytes.\<close>

fun unpack_H :: "bytes \<Rightarrow> error + nat" where
  "unpack_H [a, b] = Inr (unat a + 256 * unat b)"
| "unpack_H _ = Inl StructError"

text \<open>\<open>struct.unpack('<I', bs)[0]\<close>.\<close>

fun unpack_I :: "bytes \<Rightarrow> error + nat" where
  "unpack_I [a, b, c, d] =
     Inr (unat a + 256 * unat b + 65536 * unat c + 16777216 * unat d)"
| "unpack_I _ = Inl StructError"


fun unpack_f :: "bytes \<Rightarrow> error + float32" where
  "unpack_f [a, b, c, d] =
     Inr (of_nat (unat a + 256 * unat b + 65536 * unat c + 16777216 * unat d))"
| "unpack_f _ = Inl StructError"


text \<open>\<open>bs.decode('ascii', errors='replace')\<close>: every byte above 127 becomes U+FFFD.\<close>

definition decode_ascii_replace :: "bytes \<Rightarrow> str" where
  "decode_ascii_replace bs = map (\<lambda>b. if unat b < 128 then unat b else 65533) bs"

section \<open>Frame codec (discover\_parameters.py, parse\_zb\_packets.py, test\_mixer\_control.py)\<close>

definition MAGIC :: bytes where "MAGIC = [0x55, 0x43, 0x00, 0x01]"

definition TYPE_HELLO :: bytes where "TYPE_HELLO = [0x55, 0x4d]"


definition TYPE_PV :: bytes where "TYPE_PV = [0x50, 0x56]"

definition TYPE_KA :: bytes where "TYPE_KA = [0x4b, 0x41]"

definition TYPE_PS :: bytes where "TYPE_PS = [0x50, 0x53]"

definition build_packet :: "bytes \<Rightarrow> bytes \<Rightarrow> error + bytes" where
  "build_packet ptype payload =
     (case pack_H (2 + length payload) of
        Inl e \<Rightarrow> Inl e
      | Inr sz \<Rightarrow> Inr (MAGIC @ sz @ ptype @ payload))"

definition build_hello :: "error + bytes" where
  "build_hello = build_packet TYPE_HELLO [0x00, 0x00, 0x65, 0x00, 0x15, 0xfa]"



text \<open>
  The dictionary of one parsed frame; its keys \<open>size\<close> and \<open>type\<close> are the fields
  \<open>size_field\<close> and \<open>ptype\<close>.
\<close>

record packet =
  offset :: nat
  size_field :: nat
  ptype :: bytes
  type_str :: str
  payload :: bytes

text \<open>The dictionary appended for the frame found at \<open>idx\<close> with size field \<open>sz\<close>.\<close>

definition mk_packet :: "bytes \<Rightarrow> nat \<Rightarrow> nat \<Rightarrow> packet" where
  "mk_packet data idx sz =
     \<lparr>offset = idx, size_field = sz,
      ptype = slice data (idx + 6) (idx + 8),
      type_str = decode_ascii_replace (slice data (idx + 6) (idx + 8)),
      payload = slice data (idx + 8) (idx + 6 + sz)\<rparr>"

text \<open>
  The \<open>while\<close> loop of \<open>parse_packets\<close> (and of \<open>find_packets\<close>, the same code):
  \<open>pos\<close> is the scan position, \<open>packets\<close> the list appended to.
\<close>

function parse_loop :: "bytes \<Rightarrow> nat \<Rightarrow> packet list \<Rightarrow> error + packet list" where
  "parse_loop data pos packets =
     (if pos + 8 < length data then
        (case find_bytes data MAGIC pos of
           None \<Rightarrow> Inr packets
         | Some idx \<Rightarrow>
             if idx + 8 > length data then Inr packets
             else
               (case unpack_H (slice data (idx + 4) (idx + 6)) of
                  Inl e \<Rightarrow> Inl e
                | Inr sz \<Rightarrow>
                    if idx + 6 + sz > length data then parse_loop data (idx + 1) packets
                    else parse_loop data (idx + 6 + sz) (packets @ [mk_packet data idx sz])))
      else Inr packets)"
  by pat_completeness auto

termination parse_loop
  by (relation "measure (\<lambda>(data, pos, packets). length data - pos)")
     (auto simp del: upt_Suc simp: find_bytes_def find_Some_iff)

declare parse_loop.simps [simp del]

definition parse_packets :: "bytes \<Rightarrow> error + packet list" where
  "parse_packets data = parse_loop data 0 []"

section \<open>Parameter extraction (discover\_parameters.py)\<close>

text \<open>
  One iteration of the \<open>for pkt in packets\<close> loop of \<open>extract_pv_params\<close>; the
  dictionary \<open>params\<close> is a map.  The \<open>try\<close>/\<open>except: pass\<close> around
  \<open>struct.unpack\<close> is the \<open>Inl\<close> branch that leaves \<open>params\<close> alone.
\<close>

definition pv_step :: "(str \<rightharpoonup> float32) \<Rightarrow> packet \<Rightarrow> (str \<rightharpoonup> float32)" where
  "pv_step params pkt =
     (if ptype pkt = TYPE_PV then
        (if length (payload pkt) < 10 then params
         else
           (case find_bytes (payload pkt) [0x00] 4 of
              None \<Rightarrow> params
            | Some null_idx \<Rightarrow>
                if length (payload pkt) \<ge> null_idx + 7 then
                  (case unpack_f (last_n 4 (payload pkt)) of
                     Inl e \<Rightarrow> params
                   | Inr v \<Rightarrow>
                       params(decode_ascii_replace (slice (payload pkt) 4 null_idx) \<mapsto> v))
                else params))
      else params)"

definition extract_pv_params :: "packet list \<Rightarrow> (str \<rightharpoonup> float32)" where
  "extract_pv_params packets = foldl pv_step Map.empty packets"

definition ps_step :: "(str \<rightharpoonup> str) \<Rightarrow> packet \<Rightarrow> (str \<rightharpoonup> str)" where
  "ps_step params pkt =
     (if ptype pkt = TYPE_PS then
        (if length (payload pkt) < 10 then params
         else
           (case find_bytes (payload pkt) [0x00] 4 of
              None \<Rightarrow> params
            | Some null_idx \<Rightarrow>
                let val_start = null_idx + 3;
                    val_end = (case find_bytes (payload pkt) [0x00] val_start of
                                 None \<Rightarrow> length (payload pkt)
                               | Some e \<Rightarrow> e)
                in params(decode_ascii_replace (slice (payload pkt) 4 null_idx) \<mapsto>
                            decode_ascii_replace (slice (payload pkt) val_start val_end))))
      else params)"

definition extract_ps_params :: "packet list \<Rightarrow> (str \<rightharpoonup> str)" where
  "extract_ps_params packets = foldl ps_step Map.empty packets"

section \<open>Session token and parameter writes (test\_mixer\_control.py, discover\_parameters.py)\<close>

definition ascii :: "string \<Rightarrow> bytes" where
  "ascii s = map of_char s"

definition code_points :: "string \<Rightarrow> str" where
  "code_points s = map of_char s"







section \<open>Streaming decoder (monitor\_and\_send.py)\<close>

record mpacket =
  m_type :: str
  m_size :: nat
  m_payload :: bytes

text \<open>\<open>parse_packet(data, offset)\<close> returns the pair (packet or \<open>None\<close>, new offset).\<close>

definition parse_packet :: "bytes \<Rightarrow> nat \<Rightarrow> error + (mpacket option \<times> nat)" where
  "parse_packet data ofs =
     (if length data < ofs + 8 then Inr (None, ofs)
      else if slice data ofs (ofs + 4) \<noteq> MAGIC then Inr (None, ofs + 1)
      else
        (case unpack_H (slice data (ofs + 4) (ofs + 6)) of
           Inl e \<Rightarrow> Inl e
         | Inr sz \<Rightarrow>
             if length data < ofs + 6 + sz then Inr (None, ofs)
             else Inr (Some \<lparr>m_type = decode_ascii_replace (slice data (ofs + 6) (ofs + 8)),
                              m_size = sz,
                              m_payload = slice data (ofs + 8) (ofs + 6 + sz)\<rparr>,
                       ofs + 6 + sz)))"

text \<open>
  The \<open>JM\<close> branch of \<open>receiver_thread\<close> (and of \<open>main\<close> in dump\_state.py): the text
  it decodes, or \<open>None\<close> when the payload has no more than 8 bytes.  \<open>decode_utf8\<close>
  stands for Python's \<open>bytes.decode('utf-8', errors='replace')\<close>, which never raises.
\<close>

definition jm_json_data :: "(bytes \<Rightarrow> str) \<Rightarrow> bytes \<Rightarrow> error + str option" where
  "jm_json_data decode_utf8 pl =
     (if length pl > 8 then
        (case unpack_I (slice pl 4 8) of
           Inl e \<Rightarrow> Inl e
         | Inr json_len \<Rightarrow> Inr (Some (decode_utf8 (slice pl 8 (8 + json_len)))))
      else Inr None)"

section \<open>Listener (listen\_params.py)\<close>

datatype update = PV str float32 | PS str str

text \<open>
  What the body of the loop of \<open>parse_packets\<close> yields for one frame: the tuple
  \<open>('PV', key, value)\<close> or \<open>('PS', key, value)\<close>, or nothing.  A \<open>find\<close> result of
  \<open>-1\<close> fails both \<open>null_idx > key_start\<close> and \<open>val_end > val_start\<close>.
\<close>

definition listen_frame :: "(bytes \<Rightarrow> str) \<Rightarrow> bytes \<Rightarrow> bytes \<Rightarrow> error + update list" where
  "listen_frame decode_utf8 pt pl =
     (if pt = TYPE_PV then
        (case find_bytes pl [0x00] 4 of
           None \<Rightarrow> Inr []
         | Some null_idx \<Rightarrow>
             if null_idx > 4 \<and> length pl \<ge> null_idx + 7 then
               (case unpack_f (last_n 4 pl) of
                  Inl e \<Rightarrow> Inl e
                | Inr v \<Rightarrow> Inr [PV (decode_ascii_replace (slice pl 4 null_idx)) v])
             else Inr [])
      else if pt = TYPE_PS then
        (case find_bytes pl [0x00] 4 of
           None \<Rightarrow> Inr []
         | Some null_idx \<Rightarrow>
             if null_idx > 4 then
               (case find_bytes pl [0x00] (null_idx + 3) of
                  None \<Rightarrow> Inr []
                | Some val_end \<Rightarrow>
                    if val_end > null_idx + 3 then
                      Inr [PS (decode_ascii_replace (slice pl 4 null_idx))
                              (decode_utf8 (slice pl (null_idx + 3) val_end))]
                    else Inr [])
             else Inr [])
      else Inr [])"





section \<open>The ucdaemon client (test\_ucdaemon\_control.py)\<close>









text \<open>
  The state of a \<open>UCDaemonClient\<close>: \<open>sock\<close> is \<open>None\<close> or the socket, given by the
  packets written to it so far; \<open>running\<close> is the flag of the receive thread.  The class
  has no other session state.
\<close>

record client =
  sock :: "bytes list option"
  running :: bool



definition disconnect :: "client \<Rightarrow> client" where
  "disconnect c = c\<lparr>sock := None, running := False\<rparr>"


record upacket =
  u_size :: nat
  u_type :: bytes
  u_type_str :: str
  u_payload :: bytes

definition parse_ucnet_packet :: "bytes \<Rightarrow> error + upacket option" where
  "parse_ucnet_packet data =
     (if length data < 8 then Inr None
      else if take 4 data \<noteq> MAGIC then Inr None
      else
        (case unpack_H (slice data 4 6) of
           Inl e \<Rightarrow> Inl e
         | Inr sz \<Rightarrow>
             Inr (Some \<lparr>u_size = sz, u_type = slice data 6 8,
                        u_type_str = decode_ascii_replace (slice data 6 8),
                        u_payload = (if length data \<ge> 8 + sz - 2
                                     then slice data 8 (8 + sz - 2) else [])\<rparr>)))"

text \<open>
  The inner \<open>while len(buffer) >= 8\<close> loop of \<open>_receive_loop\<close>: the buffer left over
  and the packets passed to \<open>_handle_packet\<close>, in order.
\<close>

function receive_loop :: "bytes \<Rightarrow> upacket list \<Rightarrow> error + (bytes \<times> upacket list)" where
  "receive_loop buffer handled =
     (if length buffer \<ge> 8 then
        (if take 4 buffer \<noteq> MAGIC then
           (case find_bytes buffer MAGIC 1 of
              None \<Rightarrow> receive_loop [] handled
            | Some idx \<Rightarrow>
                if idx > 0 then receive_loop (drop idx buffer) handled
                else receive_loop [] handled)
         else
           (case unpack_H (slice buffer 4 6) of
              Inl e \<Rightarrow> Inl e
            | Inr sz \<Rightarrow>
                if length buffer \<ge> 6 + sz then
                  (case parse_ucnet_packet (take (6 + sz) buffer) of
                     Inl e \<Rightarrow> Inl e
                   | Inr None \<Rightarrow> receive_loop (drop (6 + sz) buffer) handled
                   | Inr (Some pkt) \<Rightarrow> receive_loop (drop (6 + sz) buffer) (handled @ [pkt]))
                else Inr (buffer, handled)))
      else Inr (buffer, handled))"
  by pat_completeness auto

termination receive_loop
  by (relation "measure (\<lambda>(buffer, handled). length buffer)") auto

declare receive_loop.simps [simp del]

section \<open>Path extraction from decompressed blocks (parse\_zb\_packets.py)\<close>

fun extract_loop :: "bytes \<Rightarrow> nat \<Rightarrow> str \<Rightarrow> str list \<Rightarrow> str list" where
  "extract_loop [] min_len current strings =
     (if length current \<ge> min_len then strings @ [current] else strings)"
| "extract_loop (b # data) min_len current strings =
     (if 32 \<le> unat b \<and> unat b < 127
      then extract_loop data min_len (current @ [unat b]) strings
      else extract_loop data min_len []
             (if length current \<ge> min_len then strings @ [current] else strings))"

definition extract_strings :: "bytes \<Rightarrow> nat \<Rightarrow> str list" where
  "extract_strings data min_len = extract_loop data min_len [] []"

text \<open>
  Regular expressions of the shape the script uses, with Python's \<open>re\<close> semantics for
  them: a character set is a list of inclusive code-point ranges.
\<close>

datatype regex =
    Nothing
  | Empty
  | Chars "(nat \<times> nat) list"
  | Alt regex regex
  | Seq regex regex
  | Star regex

definition OneOrMore :: "regex \<Rightarrow> regex" where
  "OneOrMore r = Seq r (Star r)"

definition in_ranges :: "nat \<Rightarrow> (nat \<times> nat) list \<Rightarrow> bool" where
  "in_ranges c rs = list_ex (\<lambda>(lo, hi). lo \<le> c \<and> c \<le> hi) rs"

fun nullable :: "regex \<Rightarrow> bool" where
  "nullable Nothing = False"
| "nullable Empty = True"
| "nullable (Chars rs) = False"
| "nullable (Alt r s) = (nullable r \<or> nullable s)"
| "nullable (Seq r s) = (nullable r \<and> nullable s)"
| "nullable (Star r) = True"

fun after :: "nat \<Rightarrow> regex \<Rightarrow> regex" where
  "after c Nothing = Nothing"
| "after c Empty = Nothing"
| "after c (Chars rs) = (if in_ranges c rs then Empty else Nothing)"
| "after c (Alt r s) = Alt (after c r) (after c s)"
| "after c (Seq r s) =
     (if nullable r then Alt (Seq (after c r) s) (after c s) else Seq (after c r) s)"
| "after c (Star r) = Seq (after c r) (Star r)"

fun accepts :: "regex \<Rightarrow> str \<Rightarrow> bool" where
  "accepts r [] = nullable r"
| "accepts r (c # cs) = accepts (after c r) cs"

text \<open>
  \<open>re.compile('^' + r + '$').match(s)\<close>: \<open>$\<close> matches at the end of the string and
  just before a newline that ends it.
\<close>

definition re_match :: "regex \<Rightarrow> str \<Rightarrow> bool" where
  "re_match r s \<longleftrightarrow> accepts r s \<or> (s \<noteq> [] \<and> last s = 10 \<and> accepts r (butlast s))"

text \<open>\<open>[a-zA-Z]\<close>, \<open>[a-zA-Z0-9_]\<close> and \<open>/\<close>.\<close>

definition LETTER :: regex where
  "LETTER = Chars [(97, 122), (65, 90)]"

definition WORDCHAR :: regex where
  "WORDCHAR = Chars [(97, 122), (65, 90), (48, 57), (95, 95)]"

definition SLASH :: regex where
  "SLASH = Chars [(47, 47)]"

text \<open>\<open>^[a-zA-Z][a-zA-Z0-9_]*(/[a-zA-Z][a-zA-Z0-9_]*)+$\<close>\<close>

definition path_pattern :: regex where
  "path_pattern =
     Seq LETTER (Seq (Star WORDCHAR) (OneOrMore (Seq SLASH (Seq LETTER (Star WORDCHAR)))))"

definition find_parameter_paths :: "str list \<Rightarrow> str list" where
  "find_parameter_paths strings = filter (re_match path_pattern) strings"

text \<open>
  The path grammar in the words of the specification, for comparison with
  \<open>path_pattern\<close>: \<open>/\<close>-separated ASCII identifier segments, each segment starting
  with a letter.  \<open>spec_segments\<close> cuts a string at every \<open>/\<close>.
\<close>

definition is_letter :: "nat \<Rightarrow> bool" where
  "is_letter c \<longleftrightarrow> (65 \<le> c \<and> c \<le> 90) \<or> (97 \<le> c \<and> c \<le> 122)"

definition is_ident_char :: "nat \<Rightarrow> bool" where
  "is_ident_char c \<longleftrightarrow> is_letter c \<or> (48 \<le> c \<and> c \<le> 57) \<or> c = 95"

definition is_identifier_segment :: "str \<Rightarrow> bool" where
  "is_identifier_segment seg \<longleftrightarrow>
     seg \<noteq> [] \<and> is_letter (hd seg) \<and> list_all is_ident_char (tl seg)"

fun spec_segments :: "str \<Rightarrow> str list" where
  "spec_segments [] = [[]]"
| "spec_segments (c # cs) =
     (if c = 47 then [] # spec_segments cs
      else (c # hd (spec_segments cs)) # tl (spec_segments cs))"

definition spec_is_path :: "str \<Rightarrow> bool" where
  "spec_is_path s \<longleftrightarrow>
     1 \<le> length (spec_segments s) \<and> list_all is_identifier_segment (spec_segments s)"

section \<open>Inputs and auxiliary notions used in the statements\<close>

text \<open>Each returned frame ends before the next one starts.\<close>

definition frames_follow :: "packet \<Rightarrow> packet \<Rightarrow> bool" where
  "frames_follow p q \<longleftrightarrow> offset p + 6 + size_field p \<le> offset q"

text \<open>
  A buffer of 16 bytes: a \<open>PV\<close> header that declares 32 bytes, and in the place of its
  payload a complete \<open>KA\<close> frame without payload.
\<close>

definition overlong_buffer :: bytes where
  "overlong_buffer = MAGIC @ [0x20, 0x00] @ TYPE_PV @ MAGIC @ [0x02, 0x00] @ TYPE_KA"

text \<open>A \<open>JM\<close> payload of 10 bytes whose length field declares 255 bytes of JSON.\<close>

definition overdeclared_jm_payload :: bytes where
  "overdeclared_jm_payload = [0x65, 0x00, 0x6a, 0x00, 0xff, 0x00, 0x00, 0x00, 0x7b, 0x7d]"




text \<open>A \<open>PV\<close> frame with a payload of 6 bytes.\<close>

definition short_pv :: packet where
  "short_pv = \<lparr>offset = 0, size_field = 8, ptype = TYPE_PV, type_str = [80, 86],
               payload = [0x72, 0x00, 0x65, 0x00, 0x61, 0x00]\<rparr>"

text \<open>A \<open>PS\<close> frame whose path \<open>main/ch1\<close> is not followed by a NUL.\<close>

definition unterminated_ps :: packet where
  "unterminated_ps = \<lparr>offset = 14, size_field = 14, ptype = TYPE_PS, type_str = [80, 83],
               payload = [0x72, 0x00, 0x65, 0x00, 0x6d, 0x61, 0x69, 0x6e, 0x2f, 0x63, 0x68, 0x31]\<rparr>"

text \<open>A well-formed \<open>PV\<close> frame: path \<open>a\<close>, value 0.5.\<close>

definition good_pv :: packet where
  "good_pv = \<lparr>offset = 34, size_field = 14, ptype = TYPE_PV, type_str = [80, 86],
               payload = [0x72, 0x00, 0x65, 0x00, 0x61, 0x00, 0x00, 0x00, 0x00, 0x00, 0x00, 0x3f]\<rparr>"

text \<open>
  A \<open>PS\<close> frame of 9 payload bytes: token, path \<open>a\<close>, NUL, two padding bytes and the
  value byte \<open>b\<close> up to the end of the payload.
\<close>

definition short_ps :: packet where
  "short_ps = \<lparr>offset = 0, size_field = 11, ptype = TYPE_PS, type_str = [80, 83],
               payload = [0x72, 0x00, 0x65, 0x00] @ [0x61] @ [0x00] @ [0x00, 0x00, 0x62]\<rparr>"

text \<open>A \<open>PS\<close> frame of 11 payload bytes: path \<open>a\<close>, value \<open>hi\<close> with its NUL.\<close>

definition name_ps :: packet where
  "name_ps = \<lparr>offset = 0, size_field = 13, ptype = TYPE_PS, type_str = [80, 83],
               payload = [0x72, 0x00, 0x65, 0x00] @ [0x61] @ [0x00] @
                         [0x00, 0x00, 0x68, 0x69, 0x00]\<rparr>"



text \<open>A KeepAlive frame without payload, as test\_ucnet\_network.py builds it: 8 bytes.\<close>

definition bare_keepalive :: bytes where
  "bare_keepalive = [0x55, 0x43, 0x00, 0x01, 0x02, 0x00, 0x4b, 0x41]"



text \<open>The repeated group \<open>/[a-zA-Z][a-zA-Z0-9_]*\<close> of the pattern.\<close>

definition GROUP :: regex where
  "GROUP = Seq SLASH (Seq LETTER (Star WORDCHAR))"

text \<open>The run \<open>main\<close>, one segment.\<close>

definition main_run :: str where
  "main_run = code_points ''main''"

text \<open>A block with the text \<open>main/ch1/pan\<close> between non-printable bytes.\<close>

definition pan_block :: bytes where
  "pan_block = [0x00, 0x01] @ ascii ''main/ch1/pan'' @ [0x00, 0x00, 0x80, 0x3e]"

text \<open>The run \<open>main/ch1/pan\<close>.\<close>

definition pan_run :: str where
  "pan_run = code_points ''main/ch1/pan''"

section \<open>Properties of the byte search\<close>

lemma find_bytes_Some_iff:
  "find_bytes data sub start = Some idx \<longleftrightarrow>
     start \<le> idx \<and> idx \<le> length data \<and> take (length sub) (drop idx data) = sub \<and>
     (\<forall>j. start \<le> j \<and> j < idx \<longrightarrow> take (length sub) (drop j data) \<noteq> sub)"
proof -
  let ?P = "\<lambda>i. take (length sub) (drop i data) = sub"
  let ?xs = "[start ..< Suc (length data)]"
  have nth: "\<And>i. i < length ?xs \<Longrightarrow> ?xs ! i = start + i"
    by (simp del: upt_Suc)
  show ?thesis
  proof
    assume "find_bytes data sub start = Some idx"
    then obtain i where i: "i < length ?xs" "?P (?xs ! i)" "idx = ?xs ! i" "\<forall>j<i. \<not> ?P (?xs ! j)"
      unfolding find_bytes_def find_Some_iff by blast
    have idx: "idx = start + i" using i(1,3) nth by simp
    have "\<And>j. start \<le> j \<Longrightarrow> j < idx \<Longrightarrow> \<not> ?P j"
    proof -
      fix j assume j: "start \<le> j" "j < idx"
      then have "j - start < i" using idx by arith
      then have "\<not> ?P (?xs ! (j - start))" using i(4) by blast
      moreover have "?xs ! (j - start) = j"
        using j i(1) idx nth[of "j - start"] by (simp del: upt_Suc)
      ultimately show "\<not> ?P j" by simp
    qed
    moreover have "idx \<le> length data" using i(1) idx by (simp del: upt_Suc)
    moreover have "?P idx" using i(2,3) by simp
    ultimately show "start \<le> idx \<and> idx \<le> length data \<and> ?P idx \<and>
        (\<forall>j. start \<le> j \<and> j < idx \<longrightarrow> \<not> ?P j)"
      using idx by simp
  next
    assume a: "start \<le> idx \<and> idx \<le> length data \<and> ?P idx \<and>
        (\<forall>j. start \<le> j \<and> j < idx \<longrightarrow> \<not> ?P j)"
    let ?i = "idx - start"
    have l: "?i < length ?xs" using a by (simp del: upt_Suc) arith
    have e: "?xs ! ?i = idx" using nth[OF l] a by simp
    have "\<forall>j<?i. \<not> ?P (?xs ! j)"
    proof (intro allI impI)
      fix j assume j: "j < ?i"
      then have "j < length ?xs" using l by simp
      then have "?xs ! j = start + j" by (rule nth)
      moreover have "start \<le> start + j \<and> start + j < idx" using j by arith
      ultimately show "\<not> ?P (?xs ! j)" using a by metis
    qed
    then show "find_bytes data sub start = Some idx"
      unfolding find_bytes_def find_Some_iff using l e a by (intro exI[of _ ?i]) simp
  qed
qed

lemma find_bytes_None_iff:
  "find_bytes data sub start = None \<longleftrightarrow>
     (\<forall>j. start \<le> j \<and> j \<le> length data \<longrightarrow> take (length sub) (drop j data) \<noteq> sub)"
  unfolding find_bytes_def find_None_iff by (auto simp del: upt_Suc)

lemma find_bytes_Some_ge: "find_bytes data sub start = Some idx \<Longrightarrow> start \<le> idx"
  by (simp add: find_bytes_Some_iff)

section \<open>Properties of the frame scanner\<close>

lemma unpack_H_slice:
  assumes "idx + 8 \<le> length data"
  shows "\<exists>n. unpack_H (slice data (idx + 4) (idx + 6)) = Inr n"
proof -
  have "length (slice data (idx + 4) (idx + 6)) = 2"
    using assms by (simp add: slice_def)
  then obtain a b where "slice data (idx + 4) (idx + 6) = [a, b]"
    by (auto simp: length_Suc_conv numeral_2_eq_2)
  then show ?thesis by simp
qed

text \<open>
  An invariant rule for the scanning loop: a property that holds at the start, survives
  a one-byte resynchronisation and survives appending a frame that lies inside the
  buffer, holds for the returned list; and the loop always returns a list.
\<close>

lemma parse_loop_invariant:
  assumes base: "I data pos acc"
    and resync: "\<And>data pos acc idx. I data pos acc \<Longrightarrow> pos \<le> idx \<Longrightarrow> I data (idx + 1) acc"
    and step: "\<And>data pos acc idx sz. I data pos acc \<Longrightarrow> pos \<le> idx \<Longrightarrow>
                 idx + 8 \<le> length data \<Longrightarrow>
                 unpack_H (slice data (idx + 4) (idx + 6)) = Inr sz \<Longrightarrow>
                 idx + 6 + sz \<le> length data \<Longrightarrow>
                 I data (idx + 6 + sz) (acc @ [mk_packet data idx sz])"
  shows "\<exists>ps pos'. parse_loop data pos acc = Inr ps \<and> I data pos' ps"
  using base
proof (induction data pos acc rule: parse_loop.induct)
  case (1 data pos packets)
  note I0 = \<open>I data pos packets\<close>
  show ?case
  proof (cases "pos + 8 < length data")
    case False
    then show ?thesis using I0 by (subst parse_loop.simps) auto
  next
    case T1: True
    show ?thesis
    proof (cases "find_bytes data MAGIC pos")
      case None
      with T1 show ?thesis using I0 by (subst parse_loop.simps) auto
    next
      case (Some idx)
      then have ge: "pos \<le> idx" by (rule find_bytes_Some_ge)
      show ?thesis
      proof (cases "idx + 8 > length data")
        case True
        with Some T1 show ?thesis using I0 by (subst parse_loop.simps) auto
      next
        case F1: False
        then obtain sz where sz: "unpack_H (slice data (idx + 4) (idx + 6)) = Inr sz"
          using unpack_H_slice[of idx data] by auto
        show ?thesis
        proof (cases "idx + 6 + sz > length data")
          case True
          have "I data (idx + 1) packets" using I0 ge by (rule resync)
          then show ?thesis
            using "1.IH"(1)[OF T1 Some F1 sz True] F1 Some sz T1 True
            by (subst parse_loop.simps) simp
        next
          case F2: False
          have "I data (idx + 6 + sz) (packets @ [mk_packet data idx sz])"
          proof (rule step[OF I0 ge _ sz])
            show "idx + 8 \<le> length data" using F1 by simp
            show "idx + 6 + sz \<le> length data" using F2 by simp
          qed
          then show ?thesis
            using "1.IH"(2)[OF T1 Some F1 sz F2] F1 Some sz T1 F2
            by (subst parse_loop.simps) simp
        qed
      qed
    qed
  qed
qed

lemma parse_packets_follow:
  "\<exists>ps. parse_packets data = Inr ps \<and> sorted_wrt frames_follow ps"
proof -
  let ?I = "\<lambda>(data::bytes) pos acc.
      sorted_wrt frames_follow acc \<and> (\<forall>p \<in> set acc. offset p + 6 + size_field p \<le> pos)"
  have "\<exists>ps pos'. parse_loop data 0 [] = Inr ps \<and> ?I data pos' ps"
  proof (rule parse_loop_invariant[where I = ?I])
    show "?I data 0 []" by simp
  next
    fix data :: bytes and pos acc idx assume "?I data pos acc" "pos \<le> idx"
    then show "?I data (idx + 1) acc" by fastforce
  next
    fix data :: bytes and pos acc idx sz
    assume "?I data pos acc" "pos \<le> idx"
    then show "?I data (idx + 6 + sz) (acc @ [mk_packet data idx sz])"
      by (fastforce simp: sorted_wrt_append frames_follow_def mk_packet_def)
  qed
  then show ?thesis by (auto simp: parse_packets_def)
qed

text \<open>
  Claim C9.  One pass of \<open>parse_packets\<close> (\<open>find_packets\<close> is the same code) over any
  buffer returns normally, and the start offsets of the returned frames, in list order,
  are strictly increasing: frames come out in the order their bytes occur.
\<close>

theorem parse_packets_fifo:
  "\<exists>ps. parse_packets data = Inr ps \<and> sorted_wrt (<) (map offset ps)"
proof -
  obtain ps where ps: "parse_packets data = Inr ps" "sorted_wrt frames_follow ps"
    using parse_packets_follow by blast
  have "sorted_wrt (\<lambda>p q. offset p < offset q) ps"
    by (rule sorted_wrt_mono_rel[OF _ ps(2)]) (simp add: frames_follow_def)
  then show ?thesis using ps(1) by (simp add: sorted_wrt_map)
qed

section \<open>A declared length that exceeds the buffer\<close>

lemma parse_packets_inside:
  "\<exists>ps. parse_packets data = Inr ps \<and>
     (\<forall>p \<in> set ps. offset p + 8 \<le> length data \<and>
        unpack_H (slice data (offset p + 4) (offset p + 6)) = Inr (size_field p) \<and>
        offset p + 6 + size_field p \<le> length data)"
proof -
  let ?I = "\<lambda>(data::bytes) (pos::nat) acc. \<forall>p \<in> set acc. offset p + 8 \<le> length data \<and>
        unpack_H (slice data (offset p + 4) (offset p + 6)) = Inr (size_field p) \<and>
        offset p + 6 + size_field p \<le> length data"
  have "\<exists>ps pos'. parse_loop data 0 [] = Inr ps \<and> ?I data pos' ps"
    by (rule parse_loop_invariant[where I = ?I]) (auto simp: mk_packet_def)
  then show ?thesis by (auto simp: parse_packets_def)
qed

text \<open>
  Claim C4, as stated, fails for \<open>parse_packets\<close>: the buffer begins with the magic
  constant and declares more bytes than it holds, yet decoding it produces a frame, the
  one found at offset 8 after the scan moved on from the first magic.
\<close>

theorem overlong_buffer_counterexample:
  "slice overlong_buffer 0 4 = MAGIC \<and>
   unpack_H (slice overlong_buffer 4 6) = Inr 32 \<and>
   length overlong_buffer < 6 + 32 \<and>
   parse_packets overlong_buffer =
     Inr [\<lparr>offset = 8, size_field = 2, ptype = TYPE_KA, type_str = [75, 65], payload = []\<rparr>]"
  by code_simp

text \<open>
  Claim C4, amended.  Where the magic constant stands at \<open>ofs\<close> and either fewer than 8
  bytes follow or the declared length reaches beyond the buffer, \<open>parse_packet\<close> of
  monitor\_and\_send.py returns no frame and the unchanged offset (incomplete, nothing
  consumed); \<open>parse_packets\<close> returns normally and none of its frames starts at
  \<open>ofs\<close> (it moves one byte on and scans the rest).
\<close>

theorem incomplete_frame_not_consumed:
  assumes "slice data ofs (ofs + 4) = MAGIC"
    and "length data < ofs + 8 \<or>
         (unpack_H (slice data (ofs + 4) (ofs + 6)) = Inr sz \<and> length data < ofs + 6 + sz)"
  shows "parse_packet data ofs = Inr (None, ofs) \<and>
         (\<exists>ps. parse_packets data = Inr ps \<and> ofs \<notin> offset ` set ps)"
proof
  show "parse_packet data ofs = Inr (None, ofs)"
    using assms by (auto simp: parse_packet_def)
next
  obtain ps where ps: "parse_packets data = Inr ps"
    "\<forall>p \<in> set ps. offset p + 8 \<le> length data \<and>
        unpack_H (slice data (offset p + 4) (offset p + 6)) = Inr (size_field p) \<and>
        offset p + 6 + size_field p \<le> length data"
    using parse_packets_inside by blast
  have "ofs \<notin> offset ` set ps"
  proof
    assume "ofs \<in> offset ` set ps"
    then obtain p where p: "p \<in> set ps" "offset p = ofs" by auto
    with ps(2) have "ofs + 8 \<le> length data"
      "unpack_H (slice data (ofs + 4) (ofs + 6)) = Inr (size_field p)"
      "ofs + 6 + size_field p \<le> length data" by auto
    with assms(2) show False by auto
  qed
  with ps(1) show "\<exists>ps. parse_packets data = Inr ps \<and> ofs \<notin> offset ` set ps" by blast
qed

theorem incomplete_frame_not_consumed_witness:
  "slice overlong_buffer 0 4 = MAGIC \<and>
   unpack_H (slice overlong_buffer 4 6) = Inr 32 \<and>
   length overlong_buffer < 6 + 32 \<and>
   parse_packet overlong_buffer 0 = Inr (None, 0)"
  using incomplete_frame_not_consumed [of overlong_buffer 0 32]
  by (simp add: overlong_buffer_def MAGIC_def TYPE_PV_def TYPE_KA_def slice_def)

section \<open>Handshake payloads with an over-declared JSON length\<close>

lemma unpack_I_slice:
  assumes "8 \<le> length pl"
  shows "\<exists>n. unpack_I (slice pl 4 8) = Inr n"
proof -
  have "length (slice pl 4 8) = 4"
    using assms by (simp add: slice_def)
  then obtain a b c d where "slice pl 4 8 = [a, b, c, d]"
    by (auto simp: length_Suc_conv numeral_eq_Suc)
  then show ?thesis by simp
qed

text \<open>The \<open>JM\<close> branch returns normally on every payload.\<close>

lemma jm_json_data_returns: "\<exists>r. jm_json_data decode_utf8 pl = Inr r"
proof (cases "length pl > 8")
  case True
  then obtain n where "unpack_I (slice pl 4 8) = Inr n"
    using unpack_I_slice[of pl] by auto
  with True show ?thesis by (simp add: jm_json_data_def)
next
  case False
  then show ?thesis by (simp add: jm_json_data_def)
qed

text \<open>
  Claim C10.  When the declared JSON length of a \<open>JM\<close> payload exceeds the bytes that
  follow its 8-byte prefix, the slice \<open>payload[8:8+json_len]\<close> is all the remaining
  bytes, and the branch returns their decoding normally: the over-declared length is
  not detected.
\<close>

theorem jm_overdeclared_length_truncates:
  assumes "length pl > 8"
    and "unpack_I (slice pl 4 8) = Inr json_len"
    and "8 + json_len > length pl"
  shows "slice pl 8 (8 + json_len) = drop 8 pl \<and>
         jm_json_data decode_utf8 pl = Inr (Some (decode_utf8 (drop 8 pl)))"
  using assms by (simp add: jm_json_data_def slice_def)

theorem jm_overdeclared_length_truncates_witness:
  "length overdeclared_jm_payload > 8 \<and>
   unpack_I (slice overdeclared_jm_payload 4 8) = Inr 255 \<and>
   8 + 255 > length overdeclared_jm_payload \<and>
   jm_json_data decode_ascii_replace overdeclared_jm_payload = Inr (Some [123, 125])"
  using jm_overdeclared_length_truncates
    [of overdeclared_jm_payload 255 decode_ascii_replace]
  by (simp add: overdeclared_jm_payload_def slice_def decode_ascii_replace_def)

section \<open>Parameter writes of the ucdaemon client\<close>










section \<open>Malformed parameter frames\<close>

lemma take1_drop_eq: "take (Suc 0) (drop j pl) = [z] \<longleftrightarrow> j < length pl \<and> pl ! j = z"
proof (cases "j < length pl")
  case True
  then have "drop j pl = pl ! j # drop (Suc j) pl" by (simp add: Cons_nth_drop_Suc)
  with True show ?thesis by simp
next
  case False
  then show ?thesis by simp
qed

lemma find_zero:
  "find_bytes pl [0] k =
     (if (0::byte) \<in> set (drop k pl)
      then Some (k + length (takeWhile (\<lambda>b. b \<noteq> 0) (drop k pl))) else None)"
proof (cases "(0::byte) \<in> set (drop k pl)")
  case True
  let ?xs = "drop k pl"
  let ?n = "length (takeWhile (\<lambda>b. b \<noteq> 0) ?xs)"
  have n: "?n < length ?xs"
  proof (rule ccontr)
    assume "\<not> ?n < length ?xs"
    then have "?n = length ?xs" using length_takeWhile_le[of "\<lambda>b. b \<noteq> 0" ?xs] by simp
    then have "takeWhile (\<lambda>b. b \<noteq> 0) ?xs = ?xs"
      using takeWhile_eq_take[of "\<lambda>b. b \<noteq> 0" ?xs] by simp
    then have "\<forall>x \<in> set ?xs. x \<noteq> 0" by (simp add: takeWhile_eq_all_conv)
    with True show False by blast
  qed
  have z: "?xs ! ?n = 0"
    using nth_length_takeWhile[OF n] by simp
  have "k + ?n < length pl" using n by simp
  moreover have "pl ! (k + ?n) = 0" using z n by simp
  moreover have "\<And>j. k \<le> j \<Longrightarrow> j < k + ?n \<Longrightarrow> pl ! j \<noteq> 0"
  proof -
    fix j assume j: "k \<le> j" "j < k + ?n"
    then have "j - k < ?n" by arith
    then have "takeWhile (\<lambda>b. b \<noteq> 0) ?xs ! (j - k) \<in> set (takeWhile (\<lambda>b. b \<noteq> 0) ?xs)"
      by (rule nth_mem)
    then have "takeWhile (\<lambda>b. b \<noteq> 0) ?xs ! (j - k) \<noteq> 0"
      by (auto dest: set_takeWhileD)
    moreover have "takeWhile (\<lambda>b. b \<noteq> 0) ?xs ! (j - k) = ?xs ! (j - k)"
      using \<open>j - k < ?n\<close> by (rule takeWhile_nth)
    moreover have "?xs ! (j - k) = pl ! j" using j n by simp
    ultimately show "pl ! j \<noteq> 0" by simp
  qed
  ultimately have "find_bytes pl [0] k = Some (k + ?n)"
  proof -
    have "take (length [0::byte]) (drop (k + ?n) pl) = [0]"
      using \<open>k + ?n < length pl\<close> \<open>pl ! (k + ?n) = 0\<close> take1_drop_eq[of "k + ?n" pl 0] by simp
    moreover have "\<forall>j. k \<le> j \<and> j < k + ?n \<longrightarrow> take (length [0::byte]) (drop j pl) \<noteq> [0]"
      using \<open>\<And>j. k \<le> j \<Longrightarrow> j < k + ?n \<Longrightarrow> pl ! j \<noteq> 0\<close> take1_drop_eq[of _ pl 0] by simp
    ultimately show ?thesis
      using \<open>k + ?n < length pl\<close> find_bytes_Some_iff[of pl "[0]" k "k + ?n"] by simp
  qed
  with True show ?thesis by simp
next
  case False
  have "\<And>j. k \<le> j \<Longrightarrow> j < length pl \<Longrightarrow> pl ! j \<noteq> 0"
  proof -
    fix j assume j: "k \<le> j" "j < length pl"
    then have "pl ! j = drop k pl ! (j - k)" by simp
    moreover have "j - k < length (drop k pl)" using j by simp
    ultimately have "pl ! j \<in> set (drop k pl)" by (simp del: nth_drop)
    with False show "pl ! j \<noteq> 0" by auto
  qed
  then have "find_bytes pl [0] k = None"
    using find_bytes_None_iff[of pl "[0]" k] take1_drop_eq[of _ pl 0] by simp
  with False show ?thesis by simp
qed

lemma slice_to_zero:
  "slice pl k (case find_bytes pl [0] k of None \<Rightarrow> length pl | Some e \<Rightarrow> e) =
     takeWhile (\<lambda>b. b \<noteq> 0) (drop k pl)"
proof (cases "(0::byte) \<in> set (drop k pl)")
  case True
  then show ?thesis
    using takeWhile_eq_take[of "\<lambda>b. b \<noteq> 0" "drop k pl"]
    by (simp add: find_zero slice_def)
next
  case False
  then have "\<forall>x \<in> set (drop k pl). x \<noteq> 0" by auto
  then have tw: "takeWhile (\<lambda>b. b \<noteq> 0) (drop k pl) = drop k pl"
    by (simp only: takeWhile_eq_all_conv)
  have "slice pl k (length pl) = drop k pl" by (simp add: slice_def)
  with False tw show ?thesis by (simp only: find_zero if_False option.case)
qed

lemma pv_step_malformed:
  assumes "(0::byte) \<notin> set (drop 4 (payload pkt)) \<or> length (payload pkt) < 10 \<or>
           (ptype pkt = TYPE_PV \<and> length (payload pkt) < 11)"
  shows "pv_step params pkt = params"
proof (cases "find_bytes (payload pkt) [0] 4")
  case None
  then show ?thesis by (simp add: pv_step_def)
next
  case (Some e)
  then have "4 \<le> e" by (rule find_bytes_Some_ge)
  moreover have "(0::byte) \<in> set (drop 4 (payload pkt))"
    using Some by (simp add: find_zero split: if_splits)
  ultimately show ?thesis using assms Some by (auto simp: pv_step_def)
qed

lemma ps_step_malformed:
  assumes "(0::byte) \<notin> set (drop 4 (payload pkt)) \<or> length (payload pkt) < 10 \<or>
           (ptype pkt = TYPE_PV \<and> length (payload pkt) < 11)"
  shows "ps_step params pkt = params"
  using assms by (auto simp: ps_step_def find_zero TYPE_PV_def TYPE_PS_def)

text \<open>
  Claim C6.  A frame whose payload has no NUL byte from index 4 on, or is shorter than
  the minimum for its kind (10 bytes, which both extractors check first; 11 bytes for a
  \<open>PV\<close> payload, which needs 7 bytes from the NUL on) changes neither dictionary:
  extraction over a list of frames gives what it gives without that frame.  Both
  extractors are total (the only operation that can raise, \<open>struct.unpack\<close>, is caught),
  so nothing is raised.
\<close>

theorem malformed_frame_is_skipped:
  assumes "(0::byte) \<notin> set (drop 4 (payload pkt)) \<or> length (payload pkt) < 10 \<or>
           (ptype pkt = TYPE_PV \<and> length (payload pkt) < 11)"
  shows "extract_pv_params (front @ [pkt] @ rest) = extract_pv_params (front @ rest) \<and>
         extract_ps_params (front @ [pkt] @ rest) = extract_ps_params (front @ rest)"
  using assms
  by (simp add: extract_pv_params_def extract_ps_params_def pv_step_malformed
      ps_step_malformed)

theorem malformed_frame_is_skipped_witness:
  "length (payload short_pv) < 10 \<and>
   (0::byte) \<notin> set (drop 4 (payload unterminated_ps)) \<and>
   extract_pv_params ([] @ [short_pv] @ [good_pv]) [97] = Some 0x3F000000 \<and>
   extract_ps_params ([short_pv] @ [unterminated_ps] @ []) = extract_ps_params ([short_pv] @ [])"
  using malformed_frame_is_skipped [of short_pv "[]" "[good_pv]"]
    malformed_frame_is_skipped [of unterminated_ps "[short_pv]" "[]"]
  by (simp add: short_pv_def unterminated_ps_def)
     (simp add: extract_pv_params_def pv_step_def good_pv_def TYPE_PV_def find_bytes_def
        upt_rec last_n_def slice_def decode_ascii_replace_def)

section \<open>String parameters\<close>

lemma path_terminator:
  assumes "pl = tok @ path @ [0] @ rest" "length tok = 4" "(0::byte) \<notin> set path"
  shows "find_bytes pl [0] 4 = Some (4 + length path)"
    and "slice pl 4 (4 + length path) = path"
    and "drop (4 + length path + 3) pl = drop 2 rest"
proof -
  have d: "drop 4 pl = path @ 0 # rest" using assms by simp
  have "takeWhile (\<lambda>b. b \<noteq> 0) (path @ 0 # rest) = path"
    using assms(3) by (auto simp: takeWhile_tail takeWhile_eq_all_conv)
  then show "find_bytes pl [0] 4 = Some (4 + length path)"
    by (simp add: find_zero d)
  show "slice pl 4 (4 + length path) = path"
    using d by (simp add: slice_def)
  have "drop (4 + length path + 3) pl = drop (length path + 3) (drop 4 pl)"
    by (simp add: add.commute)
  also have "\<dots> = drop 2 rest" by (simp add: d)
  finally show "drop (4 + length path + 3) pl = drop 2 rest" .
qed

lemma extract_ps_value:
  assumes "ptype pkt = TYPE_PS"
    and "payload pkt = tok @ path @ [0] @ rest"
    and "length tok = 4" and "path \<noteq> []" and "(0::byte) \<notin> set path" and "2 \<le> length rest"
    and "10 \<le> length (payload pkt)"
  shows "extract_ps_params [pkt] =
           [decode_ascii_replace path \<mapsto>
              decode_ascii_replace
                (takeWhile (\<lambda>b. b \<noteq> 0) (drop (4 + length path + 3) (payload pkt)))]"
proof -
  note t = path_terminator[OF assms(2,3,5)]
  show ?thesis
    using assms(1,7) slice_to_zero[of "payload pkt" "4 + length path + 3"]
    by (simp add: extract_ps_params_def ps_step_def t(1,2) Let_def)
qed

lemma listen_ps_value:
  assumes "payload pkt = tok @ path @ [0] @ rest"
    and "length tok = 4" and "path \<noteq> []" and "(0::byte) \<notin> set path"
  shows "listen_frame decode_utf8 TYPE_PS (payload pkt) =
           Inr (if (0::byte) \<in> set (drop (4 + length path + 3) (payload pkt)) \<and>
                   takeWhile (\<lambda>b. b \<noteq> 0) (drop (4 + length path + 3) (payload pkt)) \<noteq> []
                then [PS (decode_ascii_replace path)
                        (decode_utf8 (takeWhile (\<lambda>b. b \<noteq> 0)
                           (drop (4 + length path + 3) (payload pkt))))]
                else [])"
proof -
  define n where "n = 4 + length path"
  define pl where "pl = payload pkt"
  define tw where "tw = takeWhile (\<lambda>b. b \<noteq> 0) (drop (n + 3) pl)"
  have f4: "find_bytes pl [0] 4 = Some n" and key: "slice pl 4 n = path"
    using path_terminator(1,2)[OF assms(1,2,4)] by (simp_all add: n_def pl_def)
  have n4: "4 < n" using assms(3) by (simp add: n_def)
  have ne: "TYPE_PS \<noteq> TYPE_PV" by (simp add: TYPE_PS_def TYPE_PV_def)
  have sl: "slice pl (n + 3) (n + 3 + length tw) = tw"
    using takeWhile_eq_take[of "\<lambda>b. b \<noteq> 0" "drop (n + 3) pl"]
    by (simp add: slice_def tw_def)
  have fz: "find_bytes pl [0] (n + 3) =
      (if (0::byte) \<in> set (drop (n + 3) pl) then Some (n + 3 + length tw) else None)"
    unfolding tw_def by (rule find_zero)
  have "listen_frame decode_utf8 TYPE_PS pl =
      Inr (if (0::byte) \<in> set (drop (n + 3) pl) \<and> tw \<noteq> []
           then [PS (decode_ascii_replace path) (decode_utf8 tw)] else [])"
    unfolding listen_frame_def using n4 by (simp add: ne f4 key fz sl)
  then show ?thesis by (simp add: n_def pl_def tw_def)
qed

lemma extract_ps_short:
  assumes "length (payload pkt) < 10"
  shows "extract_ps_params [pkt] = Map.empty"
  using assms by (simp add: extract_ps_params_def ps_step_def)

text \<open>
  Claim C7, as stated, fails on this frame: it has a token, a non-empty terminated path
  and three further bytes, but neither decoder produces a value for it.
\<close>

theorem short_ps_counterexample:
  "ptype short_ps = TYPE_PS \<and>
   payload short_ps = [0x72, 0x00, 0x65, 0x00] @ [0x61] @ [0x00] @ [0x00, 0x00, 0x62] \<and>
   extract_ps_params [short_ps] = Map.empty \<and>
   listen_frame decode_ascii_replace TYPE_PS (payload short_ps) = Inr []"
  by (simp add: short_ps_def extract_ps_params_def ps_step_def listen_frame_def
      TYPE_PS_def TYPE_PV_def find_bytes_def upt_rec)

text \<open>
  Claim C7, amended.  For a \<open>PS\<close> payload made of a 4-byte token, a non-empty path
  without NUL, its NUL and at least 2 further bytes, the value is the bytes from 3 after
  the path's NUL up to the next NUL, or to the end of the payload when none follows.
  \<open>extract_ps_params\<close> decodes that value when the payload has at least 10 bytes and
  nothing when it is shorter; \<open>parse_packets\<close> of listen\_params.py yields it only when
  a NUL follows it and it is not empty, and nothing otherwise.
\<close>

theorem ps_value_position:
  assumes "ptype pkt = TYPE_PS"
    and "payload pkt = tok @ path @ [0] @ rest"
    and "length tok = 4" and "path \<noteq> []" and "(0::byte) \<notin> set path" and "2 \<le> length rest"
  shows "(10 \<le> length (payload pkt) \<longrightarrow>
            extract_ps_params [pkt] =
              [decode_ascii_replace path \<mapsto>
                 decode_ascii_replace
                   (takeWhile (\<lambda>b. b \<noteq> 0) (drop (4 + length path + 3) (payload pkt)))]) \<and>
         (length (payload pkt) < 10 \<longrightarrow> extract_ps_params [pkt] = Map.empty) \<and>
         listen_frame decode_utf8 (ptype pkt) (payload pkt) =
           Inr (if (0::byte) \<in> set (drop (4 + length path + 3) (payload pkt)) \<and>
                   takeWhile (\<lambda>b. b \<noteq> 0) (drop (4 + length path + 3) (payload pkt)) \<noteq> []
                then [PS (decode_ascii_replace path)
                        (decode_utf8 (takeWhile (\<lambda>b. b \<noteq> 0)
                           (drop (4 + length path + 3) (payload pkt))))]
                else [])"
  using extract_ps_value[OF assms] extract_ps_short[of pkt]
    listen_ps_value[OF assms(2,3,4,5), of decode_utf8] assms(1)
  by simp

theorem ps_value_position_witness:
  "ptype name_ps = TYPE_PS \<and>
   payload name_ps =
     [0x72, 0x00, 0x65, 0x00] @ [0x61] @ [0x00] @ [0x00, 0x00, 0x68, 0x69, 0x00] \<and>
   extract_ps_params [name_ps] = [[97] \<mapsto> [104, 105]] \<and>
   listen_frame decode_ascii_replace TYPE_PS (payload name_ps) = Inr [PS [97] [104, 105]]"
  using ps_value_position
    [of name_ps "[0x72, 0x00, 0x65, 0x00]" "[0x61]" "[0x00, 0x00, 0x68, 0x69, 0x00]"
        decode_ascii_replace]
  by (simp add: name_ps_def decode_ascii_replace_def)

section \<open>Building a frame and reading it back\<close>



lemma pack_H_Inl: "65535 < n \<Longrightarrow> pack_H n = Inl StructError"
  by (simp add: pack_H_def)



lemma length_MAGIC: "length MAGIC = 4"
  by (simp add: MAGIC_def)

lemma find_magic_after_garbage:
  assumes "find_bytes garbage MAGIC 0 = None"
  shows "find_bytes (garbage @ MAGIC @ rest) MAGIC 0 = Some (length garbage)"
proof -
  have no: "\<And>j. take 4 (drop j garbage) \<noteq> MAGIC"
  proof -
    fix j
    show "take 4 (drop j garbage) \<noteq> MAGIC"
    proof (cases "j \<le> length garbage")
      case True
      then show ?thesis using assms unfolding find_bytes_None_iff length_MAGIC by simp
    next
      case False
      then show ?thesis by (simp add: MAGIC_def)
    qed
  qed
  have "\<And>j. j < length garbage \<Longrightarrow> take 4 (drop j (garbage @ MAGIC @ rest)) \<noteq> MAGIC"
  proof -
    fix j assume j: "j < length garbage"
    define s where "s = drop j garbage"
    have s: "s \<noteq> []" using j by (simp add: s_def)
    have ns: "take 4 s \<noteq> MAGIC" using no[of j] by (simp add: s_def)
    have "take 4 (s @ MAGIC @ rest) \<noteq> MAGIC"
    proof (cases "4 \<le> length s")
      case True
      then have eq: "take 4 (s @ MAGIC @ rest) = take 4 s" by simp
      show ?thesis unfolding eq by (rule ns)
    next
      case False
      moreover have "length s \<noteq> 0" using s by simp
      ultimately have "length s = 1 \<or> length s = 2 \<or> length s = 3"
        by arith
      then consider a where "s = [a]" | a b where "s = [a, b]" | a b c where "s = [a, b, c]"
        by (auto simp: length_Suc_conv numeral_eq_Suc)
      then show ?thesis
        by cases (simp_all add: MAGIC_def)
    qed
    then show "take 4 (drop j (garbage @ MAGIC @ rest)) \<noteq> MAGIC"
      using j by (simp add: s_def)
  qed
  moreover have "take 4 (drop (length garbage) (garbage @ MAGIC @ rest)) = MAGIC"
    by (simp add: MAGIC_def)
  ultimately show ?thesis
    unfolding find_bytes_Some_iff length_MAGIC by simp
qed

lemma unpack_H_length: "unpack_H bs = Inr n \<Longrightarrow> length bs = 2"
  by (cases bs rule: unpack_H.cases) simp_all

text \<open>The parts of a buffer made of garbage and one frame.\<close>

lemma frame_parts:
  assumes "length szb = 2" and "length pt = 2"
    and "data = garbage @ MAGIC @ szb @ pt @ pl" and "n = length garbage"
    and "m = 2 + length pl"
  shows "length data = n + 6 + m"
    and "slice data (n + 4) (n + 6) = szb"
    and "slice data (n + 6) (n + 8) = pt"
    and "slice data (n + 8) (n + 6 + m) = pl"
  using assms by (simp_all add: slice_def length_MAGIC)









section \<open>Resynchronisation on one frame after garbage\<close>

text \<open>
  The receive loop of test\_ucdaemon\_control.py hands over exactly the frame that
  follows a magic-free prefix, whatever the lengths; \<open>parse_packets\<close> does so
  (\<open>parse_single_frame\<close>) when the buffer is longer than 8 bytes.
\<close>

lemma receive_frame_first:
  assumes pt: "length pt = 2" and sz: "unpack_H szb = Inr (2 + length pl)"
  shows "receive_loop (MAGIC @ szb @ pt @ pl) handled =
           Inr ([], handled @ [\<lparr>u_size = 2 + length pl, u_type = pt,
                                  u_type_str = decode_ascii_replace pt, u_payload = pl\<rparr>])"
proof -
  define data where "data = [] @ MAGIC @ szb @ pt @ pl"
  define n where "n = length ([]::bytes)"
  define m where "m = 2 + length pl"
  note p = frame_parts[OF unpack_H_length[OF sz] pt data_def n_def m_def]
  have n0: "n = 0" by (simp add: n_def)
  have m2: "2 \<le> m" by (simp add: m_def)
  have szm: "unpack_H szb = Inr m" using sz by (simp add: m_def)
  have mg: "take 4 data = MAGIC" by (simp add: data_def length_MAGIC)
  have tk: "take (6 + m) data = data" "drop (6 + m) data = []"
    using p(1) by (simp_all add: n0)
  have pk: "parse_ucnet_packet data =
      Inr (Some \<lparr>u_size = m, u_type = pt, u_type_str = decode_ascii_replace pt, u_payload = pl\<rparr>)"
    using p m2 by (simp add: parse_ucnet_packet_def mg n0 szm)
  have "receive_loop data handled =
      receive_loop [] (handled @ [\<lparr>u_size = m, u_type = pt,
                          u_type_str = decode_ascii_replace pt, u_payload = pl\<rparr>])"
    using p m2 by (subst receive_loop.simps) (simp add: mg n0 szm tk pk)
  also have "\<dots> = Inr ([], handled @ [\<lparr>u_size = m, u_type = pt,
                          u_type_str = decode_ascii_replace pt, u_payload = pl\<rparr>])"
    by (subst receive_loop.simps) simp
  finally show ?thesis by (simp only: data_def m_def append_Nil)
qed

lemma receive_single_frame:
  assumes g: "find_bytes garbage MAGIC 0 = None"
    and pt: "length pt = 2" and sz: "unpack_H szb = Inr (2 + length pl)"
  shows "receive_loop (garbage @ MAGIC @ szb @ pt @ pl) [] =
           Inr ([], [\<lparr>u_size = 2 + length pl, u_type = pt,
                       u_type_str = decode_ascii_replace pt, u_payload = pl\<rparr>])"
proof (cases "garbage = []")
  case True
  then show ?thesis using receive_frame_first[OF pt sz, of "[]"] by simp
next
  case False
  define frame where "frame = MAGIC @ szb @ pt @ pl"
  define data where "data = garbage @ frame"
  define n where "n = length garbage"
  have n: "0 < n" using False by (simp add: n_def)
  have f: "find_bytes data MAGIC 0 = Some n"
    unfolding data_def frame_def n_def using g by (rule find_magic_after_garbage)
  then have f0: "take 4 data \<noteq> MAGIC" and f1: "find_bytes data MAGIC (Suc 0) = Some n"
    using n unfolding find_bytes_Some_iff length_MAGIC by auto
  have l: "8 \<le> length data"
    using unpack_H_length[OF sz] pt by (simp add: data_def frame_def length_MAGIC)
  have d: "drop n data = frame" by (simp add: data_def n_def)
  have "receive_loop data [] = receive_loop frame []"
    using n l by (subst receive_loop.simps) (simp add: f0 f1 d)
  then show ?thesis
    using receive_frame_first[OF pt sz, of "[]"] by (simp add: data_def frame_def)
qed

text \<open>
  Claim C3 at the empty garbage prefix and the frame without payload.  The loop guard
  \<open>pos < len(data) - 8\<close> of \<open>parse_packets\<close> is false for the 8-byte buffer, so no
  frame is returned, although the frame is complete; the receive loop of
  test\_ucdaemon\_control.py, whose guard is \<open>len(buffer) >= 8\<close>, decodes it.
\<close>

theorem bare_keepalive_dropped:
  "build_packet TYPE_KA [] = Inr bare_keepalive \<and>
   parse_packets ([] @ bare_keepalive) = Inr [] \<and>
   receive_loop ([] @ bare_keepalive) [] =
     Inr ([], [\<lparr>u_size = 2, u_type = TYPE_KA, u_type_str = [75, 65], u_payload = []\<rparr>])"
  by (simp add: build_packet_def pack_H_def parse_packets_def parse_loop.simps
      receive_loop.simps parse_ucnet_packet_def slice_def MAGIC_def TYPE_KA_def
      bare_keepalive_def decode_ascii_replace_def)

section \<open>Adoption of the session token\<close>












section \<open>The path pattern\<close>

text \<open>What the matcher accepts, constructor by constructor.\<close>

lemma accepts_Nothing: "\<not> accepts Nothing w"
  by (induction w) simp_all

lemma accepts_Empty: "accepts Empty w \<longleftrightarrow> w = []"
  by (cases w) (simp_all add: accepts_Nothing)

lemma accepts_Chars: "accepts (Chars rs) w \<longleftrightarrow> (\<exists>c. w = [c] \<and> in_ranges c rs)"
  by (cases w) (auto simp: accepts_Nothing accepts_Empty)

lemma accepts_Alt: "accepts (Alt r s) w \<longleftrightarrow> accepts r w \<or> accepts s w"
  by (induction w arbitrary: r s) simp_all

lemma accepts_Seq:
  "accepts (Seq r s) w \<longleftrightarrow> (\<exists>u v. w = u @ v \<and> accepts r u \<and> accepts s v)"
proof (induction w arbitrary: r s)
  case Nil
  then show ?case by simp
next
  case (Cons c cs)
  have "(\<exists>u v. c # cs = u @ v \<and> accepts r u \<and> accepts s v) \<longleftrightarrow>
        (nullable r \<and> accepts (after c s) cs) \<or>
        (\<exists>u v. cs = u @ v \<and> accepts (after c r) u \<and> accepts s v)"
  proof
    assume "\<exists>u v. c # cs = u @ v \<and> accepts r u \<and> accepts s v"
    then obtain u v where uv: "c # cs = u @ v" "accepts r u" "accepts s v" by blast
    show "(nullable r \<and> accepts (after c s) cs) \<or>
        (\<exists>u v. cs = u @ v \<and> accepts (after c r) u \<and> accepts s v)"
    proof (cases u)
      case Nil
      with uv show ?thesis by auto
    next
      case (Cons a u')
      with uv have "cs = u' @ v" "accepts (after c r) u'" by auto
      with uv(3) show ?thesis by blast
    qed
  next
    assume "(nullable r \<and> accepts (after c s) cs) \<or>
        (\<exists>u v. cs = u @ v \<and> accepts (after c r) u \<and> accepts s v)"
    then show "\<exists>u v. c # cs = u @ v \<and> accepts r u \<and> accepts s v"
    proof
      assume "nullable r \<and> accepts (after c s) cs"
      then have "c # cs = [] @ (c # cs) \<and> accepts r [] \<and> accepts s (c # cs)" by simp
      then show ?thesis by blast
    next
      assume "\<exists>u v. cs = u @ v \<and> accepts (after c r) u \<and> accepts s v"
      then obtain u v where "cs = u @ v" "accepts (after c r) u" "accepts s v" by blast
      then have "c # cs = (c # u) @ v \<and> accepts r (c # u) \<and> accepts s v" by simp
      then show ?thesis by blast
    qed
  qed
  then show ?case using Cons.IH by (auto simp: accepts_Alt)
qed

lemma accepts_Star:
  "accepts (Star r) w \<longleftrightarrow> (\<exists>ws. w = concat ws \<and> (\<forall>u \<in> set ws. u \<noteq> [] \<and> accepts r u))"
proof (induction "length w" arbitrary: w rule: less_induct)
  case less
  show ?case
  proof (cases w)
    case Nil
    have "[] = concat [] \<and> (\<forall>u \<in> set ([]::str list). u \<noteq> [] \<and> accepts r u)" by simp
    then have "\<exists>ws. [] = concat ws \<and> (\<forall>u \<in> set ws. u \<noteq> [] \<and> accepts r u)" by blast
    with Nil show ?thesis by simp
  next
    case (Cons c cs)
    have IH: "\<And>v. length v \<le> length cs \<Longrightarrow>
        accepts (Star r) v \<longleftrightarrow> (\<exists>ws. v = concat ws \<and> (\<forall>u \<in> set ws. u \<noteq> [] \<and> accepts r u))"
      using less Cons by simp
    show ?thesis
    proof
      assume "accepts (Star r) w"
      then obtain u v where uv: "cs = u @ v" "accepts (after c r) u" "accepts (Star r) v"
        using Cons by (auto simp: accepts_Seq)
      then obtain ws where ws: "v = concat ws" "\<forall>x \<in> set ws. x \<noteq> [] \<and> accepts r x"
        using IH[of v] by auto
      have "w = concat ((c # u) # ws) \<and> (\<forall>x \<in> set ((c # u) # ws). x \<noteq> [] \<and> accepts r x)"
        using Cons uv ws by simp
      then show "\<exists>ws. w = concat ws \<and> (\<forall>u \<in> set ws. u \<noteq> [] \<and> accepts r u)" by blast
    next
      assume "\<exists>ws. w = concat ws \<and> (\<forall>u \<in> set ws. u \<noteq> [] \<and> accepts r u)"
      then obtain ws where ws: "w = concat ws" "\<forall>u \<in> set ws. u \<noteq> [] \<and> accepts r u" by blast
      with Cons obtain x xs where x: "ws = x # xs" by (cases ws) auto
      with ws have "x \<noteq> []" by simp
      with ws x Cons obtain u where u: "x = c # u" "cs = u @ concat xs" by (cases x) auto
      have "accepts (after c r) u" using ws x u by auto
      moreover have "accepts (Star r) (concat xs)"
      proof -
        have "length (concat xs) \<le> length cs" using u by simp
        then show ?thesis using IH[of "concat xs"] ws x by auto
      qed
      ultimately show "accepts (Star r) w" using Cons u by (auto simp: accepts_Seq)
    qed
  qed
qed

lemma wordchar_ranges:
  "in_ranges c [(97, 122), (65, 90), (48, 57), (95, 95)] \<longleftrightarrow> is_ident_char c"
  by (auto simp: in_ranges_def is_ident_char_def is_letter_def)

lemma letter_ranges: "in_ranges c [(97, 122), (65, 90)] \<longleftrightarrow> is_letter c"
  by (auto simp: in_ranges_def is_letter_def)

lemma slash_ranges: "in_ranges c [(47, 47)] \<longleftrightarrow> c = 47"
  by (auto simp: in_ranges_def)

lemma accepts_wordchars: "accepts (Star WORDCHAR) u \<longleftrightarrow> list_all is_ident_char u"
proof
  assume "accepts (Star WORDCHAR) u"
  then obtain ws where ws: "u = concat ws"
    "\<forall>x \<in> set ws. x \<noteq> [] \<and> (\<exists>c. x = [c] \<and> is_ident_char c)"
    unfolding accepts_Star WORDCHAR_def accepts_Chars wordchar_ranges by blast
  then have "\<forall>x \<in> set ws. list_all is_ident_char x" by fastforce
  with ws(1) show "list_all is_ident_char u"
    by (auto simp: list_all_iff)
next
  assume a: "list_all is_ident_char u"
  have "u = concat (map (\<lambda>c. [c]) u)" by (induction u) simp_all
  moreover have "\<forall>x \<in> set (map (\<lambda>c. [c]) u). x \<noteq> [] \<and> (\<exists>c. x = [c] \<and> is_ident_char c)"
    using a by (auto simp: list_all_iff)
  ultimately show "accepts (Star WORDCHAR) u"
    unfolding accepts_Star WORDCHAR_def accepts_Chars wordchar_ranges by blast
qed

lemma accepts_segment:
  "accepts (Seq LETTER (Star WORDCHAR)) s \<longleftrightarrow> is_identifier_segment s"
proof -
  have "accepts (Seq LETTER (Star WORDCHAR)) s \<longleftrightarrow>
        (\<exists>c v. s = c # v \<and> is_letter c \<and> list_all is_ident_char v)"
  proof
    assume "accepts (Seq LETTER (Star WORDCHAR)) s"
    then show "\<exists>c v. s = c # v \<and> is_letter c \<and> list_all is_ident_char v"
      unfolding accepts_Seq accepts_wordchars
      by (auto simp: LETTER_def accepts_Chars letter_ranges)
  next
    assume "\<exists>c v. s = c # v \<and> is_letter c \<and> list_all is_ident_char v"
    then obtain c v where "s = [c] @ v" "is_letter c" "list_all is_ident_char v" by auto
    then have "s = [c] @ v \<and> accepts LETTER [c] \<and> accepts (Star WORDCHAR) v"
      by (simp add: LETTER_def accepts_Chars letter_ranges accepts_wordchars)
    then show "accepts (Seq LETTER (Star WORDCHAR)) s"
      unfolding accepts_Seq by blast
  qed
  also have "\<dots> \<longleftrightarrow> is_identifier_segment s"
    by (cases s) (auto simp: is_identifier_segment_def)
  finally show ?thesis .
qed

lemma accepts_group:
  "accepts GROUP g \<longleftrightarrow> (\<exists>s. g = 47 # s \<and> is_identifier_segment s)"
  unfolding GROUP_def accepts_Seq[of SLASH] accepts_segment
  by (auto simp: SLASH_def accepts_Chars slash_ranges)

lemma groups_concat:
  "(\<forall>g \<in> set gs. g \<noteq> [] \<and> accepts GROUP g) \<longleftrightarrow>
   (\<exists>ss. gs = map ((#) 47) ss \<and> list_all is_identifier_segment ss)"
proof
  assume a: "\<forall>g \<in> set gs. g \<noteq> [] \<and> accepts GROUP g"
  then have "\<forall>g \<in> set gs. g = 47 # tl g \<and> is_identifier_segment (tl g)"
    by (auto simp: accepts_group)
  then have "gs = map ((#) 47) (map tl gs) \<and> list_all is_identifier_segment (map tl gs)"
    by (auto simp: list_all_iff map_idI)
  then show "\<exists>ss. gs = map ((#) 47) ss \<and> list_all is_identifier_segment ss" by blast
next
  assume "\<exists>ss. gs = map ((#) 47) ss \<and> list_all is_identifier_segment ss"
  then show "\<forall>g \<in> set gs. g \<noteq> [] \<and> accepts GROUP g"
    by (auto simp: accepts_group list_all_iff)
qed

lemma accepts_path_pattern:
  "accepts path_pattern w \<longleftrightarrow>
     (\<exists>s0 ss. w = s0 @ concat (map ((#) 47) ss) \<and> is_identifier_segment s0 \<and>
        ss \<noteq> [] \<and> list_all is_identifier_segment ss)"
proof -
  have pp: "path_pattern = Seq LETTER (Seq (Star WORDCHAR) (Seq GROUP (Star GROUP)))"
    by (simp add: path_pattern_def OneOrMore_def GROUP_def)
  have seg: "\<And>s. is_identifier_segment s \<longleftrightarrow>
      (\<exists>u v. s = u @ v \<and> accepts LETTER u \<and> accepts (Star WORDCHAR) v)"
    using accepts_segment by (simp add: accepts_Seq)
  show ?thesis
  proof
    assume "accepts path_pattern w"
    then obtain u1 u2 g gs' where w: "w = u1 @ u2 @ g @ gs'" and
      u: "accepts LETTER u1" "accepts (Star WORDCHAR) u2" and
      g: "accepts GROUP g" and gs': "accepts (Star GROUP) gs'"
      unfolding pp accepts_Seq by blast
    from gs' obtain gs where gs: "gs' = concat gs" "\<forall>x \<in> set gs. x \<noteq> [] \<and> accepts GROUP x"
      unfolding accepts_Star by blast
    from g have gne: "g \<noteq> []" by (auto simp: accepts_group)
    with g gs(2) have "\<forall>x \<in> set (g # gs). x \<noteq> [] \<and> accepts GROUP x" by simp
    then have "\<exists>ss. g # gs = map ((#) 47) ss \<and> list_all is_identifier_segment ss"
      by (simp only: groups_concat)
    then obtain ss where ss: "g # gs = map ((#) 47) ss" "list_all is_identifier_segment ss"
      by (elim exE conjE)
    have "is_identifier_segment (u1 @ u2)" using u seg by blast
    moreover have "w = (u1 @ u2) @ concat (map ((#) 47) ss)"
      using w gs(1) ss(1)[symmetric] by simp
    moreover have "ss \<noteq> []" using ss(1) by auto
    ultimately show "\<exists>s0 ss. w = s0 @ concat (map ((#) 47) ss) \<and> is_identifier_segment s0 \<and>
        ss \<noteq> [] \<and> list_all is_identifier_segment ss"
      using ss(2) by blast
  next
    assume "\<exists>s0 ss. w = s0 @ concat (map ((#) 47) ss) \<and> is_identifier_segment s0 \<and>
        ss \<noteq> [] \<and> list_all is_identifier_segment ss"
    then obtain s0 ss where w: "w = s0 @ concat (map ((#) 47) ss)" and
      s0: "is_identifier_segment s0" and ss: "ss \<noteq> []" "list_all is_identifier_segment ss"
      by blast
    from ss(1) obtain s ss' where sss: "ss = s # ss'" by (cases ss) auto
    from s0 obtain u1 u2 where u: "s0 = u1 @ u2" "accepts LETTER u1" "accepts (Star WORDCHAR) u2"
      using seg by blast
    have all: "\<forall>g \<in> set (map ((#) 47) ss). g \<noteq> [] \<and> accepts GROUP g"
      unfolding groups_concat using ss(2) by blast
    then have g: "accepts GROUP (47 # s)" using sss by (simp del: accepts.simps)
    have "\<forall>g \<in> set (map ((#) 47) ss'). g \<noteq> [] \<and> accepts GROUP g"
      using all sss by (simp del: accepts.simps)
    then have "\<exists>ws. concat (map ((#) 47) ss') = concat ws \<and>
        (\<forall>u \<in> set ws. u \<noteq> [] \<and> accepts GROUP u)" by blast
    then have "accepts (Star GROUP) (concat (map ((#) 47) ss'))"
      by (simp only: accepts_Star)
    moreover have "w = u1 @ u2 @ (47 # s) @ concat (map ((#) 47) ss')"
      using w u(1) sss by simp
    ultimately show "accepts path_pattern w"
      unfolding pp accepts_Seq using u(2,3) g by blast
  qed
qed

lemma spec_segments_nonempty: "spec_segments w \<noteq> []"
  by (cases w) simp_all

lemma spec_segments_no_slash: "47 \<notin> set s \<Longrightarrow> spec_segments s = [s]"
  by (induction s) auto

lemma spec_segments_cut:
  "47 \<notin> set s \<Longrightarrow> spec_segments (s @ 47 # rest) = s # spec_segments rest"
  by (induction s) auto

lemma spec_segments_join:
  assumes "47 \<notin> set s0" and "\<forall>s \<in> set ss. 47 \<notin> set s"
  shows "spec_segments (s0 @ concat (map ((#) 47) ss)) = s0 # ss"
  using assms
proof (induction ss arbitrary: s0)
  case Nil
  then show ?case by (simp add: spec_segments_no_slash)
next
  case (Cons s ss)
  have "spec_segments (s0 @ 47 # (s @ concat (map ((#) 47) ss))) =
        s0 # spec_segments (s @ concat (map ((#) 47) ss))"
    using Cons.prems(1) by (rule spec_segments_cut)
  also have "spec_segments (s @ concat (map ((#) 47) ss)) = s # ss"
    using Cons.prems(2) by (intro Cons.IH) auto
  finally show ?case by simp
qed

lemma spec_segments_glue:
  "w = hd (spec_segments w) @ concat (map ((#) 47) (tl (spec_segments w)))"
proof (induction w)
  case Nil
  then show ?case by simp
next
  case (Cons c w)
  show ?case
  proof (cases "c = 47")
    case True
    have "spec_segments w = hd (spec_segments w) # tl (spec_segments w)"
      using spec_segments_nonempty[of w] by simp
    then have "concat (map ((#) 47) (spec_segments w)) =
        47 # hd (spec_segments w) @ concat (map ((#) 47) (tl (spec_segments w)))"
      by (metis concat.simps(2) list.simps(9) append_Cons)
    with True Cons.IH show ?thesis by simp
  next
    case False
    with Cons.IH show ?thesis by simp
  qed
qed

lemma segment_no_slash: "is_identifier_segment s \<Longrightarrow> 47 \<notin> set s"
proof
  assume s: "is_identifier_segment s" and "47 \<in> set s"
  then have "s = hd s # tl s" by (simp add: is_identifier_segment_def)
  with \<open>47 \<in> set s\<close> have "47 = hd s \<or> 47 \<in> set (tl s)" by (metis set_ConsD)
  then show False
    using s by (auto simp: is_identifier_segment_def is_letter_def is_ident_char_def list_all_iff)
qed

lemma path_pattern_segments:
  "accepts path_pattern w \<longleftrightarrow>
     2 \<le> length (spec_segments w) \<and> list_all is_identifier_segment (spec_segments w)"
proof
  assume "accepts path_pattern w"
  then obtain s0 ss where w: "w = s0 @ concat (map ((#) 47) ss)" and
    s: "is_identifier_segment s0" "ss \<noteq> []" "list_all is_identifier_segment ss"
    unfolding accepts_path_pattern by blast
  have "spec_segments w = s0 # ss"
    unfolding w using s(1,3) by (intro spec_segments_join) (auto simp: segment_no_slash list_all_iff)
  then show "2 \<le> length (spec_segments w) \<and> list_all is_identifier_segment (spec_segments w)"
    using s by (cases ss) auto
next
  assume a: "2 \<le> length (spec_segments w) \<and> list_all is_identifier_segment (spec_segments w)"
  define s0 where "s0 = hd (spec_segments w)"
  define ss where "ss = tl (spec_segments w)"
  have e: "spec_segments w = s0 # ss"
    using spec_segments_nonempty[of w] by (simp add: s0_def ss_def)
  have "w = s0 @ concat (map ((#) 47) ss)"
    unfolding s0_def ss_def by (rule spec_segments_glue)
  moreover have "is_identifier_segment s0" "list_all is_identifier_segment ss" "ss \<noteq> []"
    using a e by auto
  ultimately show "accepts path_pattern w"
    unfolding accepts_path_pattern by blast
qed

lemma extract_loop_printable:
  assumes "\<forall>c \<in> set current. 32 \<le> c \<and> c < 127"
    and "\<forall>s \<in> set strings. \<forall>c \<in> set s. 32 \<le> c \<and> c < 127"
  shows "\<forall>s \<in> set (extract_loop data min_len current strings). \<forall>c \<in> set s. 32 \<le> c \<and> c < 127"
  using assms
proof (induction data arbitrary: current strings)
  case Nil
  then show ?case by auto
next
  case (Cons b data)
  show ?case
  proof (cases "32 \<le> unat b \<and> unat b < 127")
    case True
    have "\<forall>s \<in> set (extract_loop data min_len (current @ [unat b]) strings).
            \<forall>c \<in> set s. 32 \<le> c \<and> c < 127"
      using Cons.prems True by (intro Cons.IH) auto
    with True show ?thesis by simp
  next
    case False
    have "\<forall>s \<in> set (extract_loop data min_len []
              (if min_len \<le> length current then strings @ [current] else strings)).
            \<forall>c \<in> set s. 32 \<le> c \<and> c < 127"
      using Cons.prems by (intro Cons.IH) auto
    with False show ?thesis by auto
  qed
qed

lemma printable_re_match:
  assumes "\<forall>c \<in> set s. 32 \<le> c \<and> c < (127::nat)"
  shows "re_match r s \<longleftrightarrow> accepts r s"
proof -
  have "s \<noteq> [] \<Longrightarrow> last s \<noteq> 10"
    using assms last_in_set[of s] by fastforce
  then show ?thesis by (auto simp: re_match_def)
qed

text \<open>
  Claim C8, as stated, fails: the printable run \<open>main\<close> is one identifier segment that
  begins with a letter, a path in the words of the specification, and
  \<open>find_parameter_paths\<close> discards it.
\<close>

theorem single_segment_counterexample:
  "extract_strings (ascii ''main'') 3 = [main_run] \<and>
   spec_is_path main_run \<and>
   find_parameter_paths (extract_strings (ascii ''main'') 3) = []"
  by (simp add: extract_strings_def ascii_def main_run_def code_points_def spec_is_path_def
      is_identifier_segment_def is_letter_def is_ident_char_def find_parameter_paths_def
      re_match_def path_pattern_def OneOrMore_def LETTER_def WORDCHAR_def SLASH_def
      in_ranges_def)

text \<open>
  Claim C8, amended.  A printable run extracted from a block is kept by
  \<open>find_parameter_paths\<close> if and only if it consists of two or more \<open>/\<close>-separated
  identifier segments, each beginning with a letter; a single segment is discarded like
  every other run.
\<close>

theorem path_classification:
  assumes "run \<in> set (extract_strings data min_len)"
  shows "run \<in> set (find_parameter_paths (extract_strings data min_len)) \<longleftrightarrow>
         2 \<le> length (spec_segments run) \<and> list_all is_identifier_segment (spec_segments run)"
proof -
  have "\<forall>c \<in> set run. 32 \<le> c \<and> c < 127"
    using assms extract_loop_printable[of "[]" "[]" data min_len]
    by (simp add: extract_strings_def)
  then have "re_match path_pattern run \<longleftrightarrow> accepts path_pattern run"
    by (rule printable_re_match)
  then show ?thesis
    using assms by (simp add: find_parameter_paths_def path_pattern_segments)
qed

lemma pan_extract: "extract_strings pan_block 3 = [pan_run]"
  by (simp add: extract_strings_def pan_block_def ascii_def pan_run_def code_points_def)

theorem path_classification_witness:
  "pan_run \<in> set (extract_strings pan_block 3) \<and>
   spec_segments pan_run = [code_points ''main'', code_points ''ch1'', code_points ''pan''] \<and>
   find_parameter_paths (extract_strings pan_block 3) = [pan_run]"
proof -
  have m: "pan_run \<in> set (extract_strings pan_block 3)"
    by (simp add: pan_extract)
  have seg: "spec_segments pan_run =
      [code_points ''main'', code_points ''ch1'', code_points ''pan'']"
    by (simp add: pan_run_def code_points_def)
  have "2 \<le> length (spec_segments pan_run) \<and>
        list_all is_identifier_segment (spec_segments pan_run)"
    unfolding seg
    by (simp add: code_points_def is_identifier_segment_def is_letter_def is_ident_char_def)
  with path_classification [OF m]
  have "pan_run \<in> set (find_parameter_paths (extract_strings pan_block 3))"
    by blast
  then have "find_parameter_paths (extract_strings pan_block 3) = [pan_run]"
    by (simp add: pan_extract find_parameter_paths_def split: if_splits)
  with m seg show ?thesis by simp
qed

end
